theory Spec2Isabelle
  imports Main "HOL-Library.Multiset"
begin

section \<open>Step links and the satisfiability relation (pkg/api/graph.go)\<close>

text \<open>
  The Go interface \<^verbatim>\<open>StepLink\<close> has six implementations in graph.go; a link value is one
  of them. Strings are byte sequences, as in Go. The nil interface value is not a link:
  every link handled below is a value of one of the six concrete types.
\<close>

datatype StepLink =
    internalImageStreamLink string
  | internalImageStreamTagLink string string
  | allStepsLink
  | externalImageLink string string string
  | imagesReadyLink
  | rpmRepoLink

text \<open>
  \<^verbatim>\<open>l.SatisfiedBy(other)\<close>: the receiver is the first argument. Each equation is the
  method of one receiver type, its type switch on \<open>other\<close> written as a case distinction.
  The fields of \<^verbatim>\<open>externalImageLink\<close> are namespace, name, tag, in this order.
\<close>

fun SatisfiedBy :: "StepLink \<Rightarrow> StepLink \<Rightarrow> bool" where
  "SatisfiedBy (internalImageStreamLink name) other =
     (case other of
        internalImageStreamLink name' \<Rightarrow> name = name'
      | _ \<Rightarrow> False)"
| "SatisfiedBy (internalImageStreamTagLink name tag) other =
     (case other of
        internalImageStreamTagLink name' tag' \<Rightarrow> name = name' \<and> tag = tag'
      | internalImageStreamLink name' \<Rightarrow> name = name'
      | _ \<Rightarrow> False)"
| "SatisfiedBy allStepsLink other = True"
| "SatisfiedBy (externalImageLink namespace name tag) other =
     (case other of
        externalImageLink namespace' name' tag' \<Rightarrow>
          name = name' \<and> namespace = namespace' \<and> tag = tag'
      | _ \<Rightarrow> False)"
| "SatisfiedBy imagesReadyLink other =
     (case other of imagesReadyLink \<Rightarrow> True | _ \<Rightarrow> False)"
| "SatisfiedBy rpmRepoLink other =
     (case other of rpmRepoLink \<Rightarrow> True | _ \<Rightarrow> False)"

definition AllStepsLink :: StepLink where
  "AllStepsLink = allStepsLink"

definition RPMRepoLink :: StepLink where
  "RPMRepoLink = rpmRepoLink"

section \<open>Release names and release streams\<close>





section \<open>Link-set matching\<close>

text \<open>
  \<^verbatim>\<open>HasAnyLinks(steps, candidates)\<close>: the outer loop runs over the candidates, the inner
  one over the steps, and the first hit returns true.
\<close>

fun HasAnyLinks_inner :: "StepLink list \<Rightarrow> StepLink \<Rightarrow> bool" where
  "HasAnyLinks_inner [] candidate = False"
| "HasAnyLinks_inner (step # steps) candidate =
     (if SatisfiedBy step candidate then True else HasAnyLinks_inner steps candidate)"

fun HasAnyLinks :: "StepLink list \<Rightarrow> StepLink list \<Rightarrow> bool" where
  "HasAnyLinks steps [] = False"
| "HasAnyLinks steps (candidate # candidates) =
     (if HasAnyLinks_inner steps candidate then True else HasAnyLinks steps candidates)"

text \<open>
  \<^verbatim>\<open>HasAllLinks(needles, haystack)\<close>: for each needle the inner loop runs over the whole
  haystack and sets \<open>contains\<close> when \<^verbatim>\<open>hay.SatisfiedBy(needle)\<close>, the haystack member being
  the receiver.
\<close>

fun HasAllLinks_inner :: "StepLink \<Rightarrow> StepLink list \<Rightarrow> bool \<Rightarrow> bool" where
  "HasAllLinks_inner needle [] contains = contains"
| "HasAllLinks_inner needle (hay # haystack) contains =
     HasAllLinks_inner needle haystack (if SatisfiedBy hay needle then True else contains)"

fun HasAllLinks :: "StepLink list \<Rightarrow> StepLink list \<Rightarrow> bool" where
  "HasAllLinks [] haystack = True"
| "HasAllLinks (needle # needles) haystack =
     (if \<not> HasAllLinks_inner needle haystack False then False
      else HasAllLinks needles haystack)"

section \<open>Steps, nodes and the node store\<close>

text \<open>
  Of the \<^verbatim>\<open>Step\<close> interface the graph code calls \<^verbatim>\<open>Name()\<close>, \<^verbatim>\<open>Requires()\<close> and
  \<^verbatim>\<open>Creates()\<close> only; a step is the record of what these three return (they are called
  several times and taken to return the same value each time).

  A \<^verbatim>\<open>*StepNode\<close> is an address into a node store: the store is the list of the nodes
  allocated by one call of \<^verbatim>\<open>BuildGraph\<close>, and the address of a node is its index. The
  \<open>Children\<close> of a node are addresses, and the pointer comparison \<^verbatim>\<open>s == child\<close> is equality
  of addresses. Every address the code dereferences comes from \<open>allNodes\<close>, so it is in range.
\<close>

record Step =
  Name :: string
  Requires :: "StepLink list"
  Creates :: "StepLink list"

record StepNode =
  Step :: Step
  Children :: "nat list"

type_synonym heap = "StepNode list"

text \<open>
  \<^verbatim>\<open>addToNode(parent, child)\<close>: the loop looks for the child among the parent's children;
  when it is there nothing changes and the result is false, otherwise it is appended.
\<close>

fun addToNode_loop :: "nat list \<Rightarrow> nat \<Rightarrow> bool" where
  "addToNode_loop [] child = False"
| "addToNode_loop (s # rest) child = (if s = child then True else addToNode_loop rest child)"

definition addToNode :: "heap \<Rightarrow> nat \<Rightarrow> nat \<Rightarrow> heap \<times> bool" where
  "addToNode h parent child =
     (if addToNode_loop (Children (h ! parent)) child then (h, False)
      else (h[parent := (h ! parent)\<lparr>Children := Children (h ! parent) @ [child]\<rparr>], True))"

section \<open>BuildGraph\<close>

text \<open>
  The four nested loops of \<^verbatim>\<open>BuildGraph\<close>, innermost first. The state threaded through
  the three inner loops is the node store and the flag \<open>isRoot\<close>; the outer loop threads
  the store and the list of roots. \<open>other\<close> runs over all of \<open>allNodes\<close>, the node itself
  included: the source has no test that skips it.
\<close>

fun creates_loop :: "nat \<Rightarrow> nat \<Rightarrow> StepLink \<Rightarrow> StepLink list \<Rightarrow> heap \<times> bool \<Rightarrow> heap \<times> bool" where
  "creates_loop node other nodeRequires [] st = st"
| "creates_loop node other nodeRequires (otherCreates # rest) (h, isRoot) =
     creates_loop node other nodeRequires rest
       (if SatisfiedBy nodeRequires otherCreates
        then (fst (addToNode h other node), False)
        else (h, isRoot))"

fun requires_loop :: "nat \<Rightarrow> nat \<Rightarrow> StepLink list \<Rightarrow> heap \<times> bool \<Rightarrow> heap \<times> bool" where
  "requires_loop node other [] st = st"
| "requires_loop node other (nodeRequires # rest) (h, isRoot) =
     requires_loop node other rest
       (creates_loop node other nodeRequires (Creates (Step (h ! other))) (h, isRoot))"

fun others_loop :: "nat \<Rightarrow> nat list \<Rightarrow> heap \<times> bool \<Rightarrow> heap \<times> bool" where
  "others_loop node [] st = st"
| "others_loop node (other # rest) (h, isRoot) =
     others_loop node rest
       (requires_loop node other (Requires (Step (h ! node))) (h, isRoot))"

fun nodes_loop :: "nat list \<Rightarrow> nat list \<Rightarrow> heap \<times> nat list \<Rightarrow> heap \<times> nat list" where
  "nodes_loop allNodes [] st = st"
| "nodes_loop allNodes (node # rest) (h, roots) =
     (case others_loop node allNodes (h, True) of
        (h', isRoot) \<Rightarrow>
          nodes_loop allNodes rest (h', if isRoot then roots @ [node] else roots))"

text \<open>
  The first loop allocates one node per step, in order, with no children. The Go function
  returns the roots; the nodes they point to live in the store, returned with them.
\<close>

definition BuildGraph :: "Step list \<Rightarrow> nat list \<times> heap" where
  "BuildGraph steps =
     (case nodes_loop [0..<length steps] [0..<length steps]
             (map (\<lambda>step. \<lparr>Step = step, Children = []\<rparr>) steps, [])
      of (h, roots) \<Rightarrow> (roots, h))"

text \<open>
  The steps of a forest: those of the nodes that can be reached from a root by following
  \<open>Children\<close>.
\<close>

inductive_set reach :: "heap \<Rightarrow> nat list \<Rightarrow> nat set" for h :: heap and roots :: "nat list" where
  root: "r \<in> set roots \<Longrightarrow> r \<in> reach h roots"
| child: "p \<in> reach h roots \<Longrightarrow> c \<in> set (Children (h ! p)) \<Longrightarrow> c \<in> reach h roots"

definition forestSteps :: "nat list \<times> heap \<Rightarrow> Step set" where
  "forestSteps forest = (\<lambda>a. Step (snd forest ! a)) ` reach (snd forest) (fst forest)"

section \<open>BuildPartialGraph\<close>

text \<open>
  \<^verbatim>\<open>strings.Join\<close>, and the error built by \<^verbatim>\<open>fmt.Errorf\<close>: an error value is its message.
\<close>

fun Join :: "string list \<Rightarrow> string \<Rightarrow> string" where
  "Join [] sep = []"
| "Join [x] sep = x"
| "Join (x # y # rest) sep = x @ sep @ Join (y # rest) sep"

datatype error = Errorf string

definition notFound :: "string list \<Rightarrow> string list \<Rightarrow> error" where
  "notFound names allNames =
     Errorf (''the following names were not found in the config or were duplicates: ''
             @ Join names '', '' @ '' (from '' @ Join allNames '', '' @ '')'')"

text \<open>
  The inner loop over \<open>names\<close>: the index of the first name equal to the name of the step,
  where the loop body runs and breaks; \<open>None\<close> when the loop ends without a match.
\<close>

fun names_loop :: "string \<Rightarrow> string list \<Rightarrow> nat option" where
  "names_loop stepName [] = None"
| "names_loop stepName (name # rest) =
     (if name \<noteq> stepName then map_option Suc (names_loop stepName rest) else Some 0)"

text \<open>
  The body of the first loop over the steps. On a match at index \<open>j\<close> the step becomes a
  candidate, its requirements are appended to \<open>required\<close>, and \<open>names\<close> becomes
  \<^verbatim>\<open>append(names[:j], names[j+1:]...)\<close>. (That call also overwrites the caller's backing
  array; the local slice is what the function goes on with.)
\<close>

definition match_body ::
  "Step list \<Rightarrow> nat \<Rightarrow> bool list \<times> StepLink list \<times> string list \<times> string list
     \<Rightarrow> bool list \<times> StepLink list \<times> string list \<times> string list" where
  "match_body steps i st =
     (case st of (candidates, required, names, allNames) \<Rightarrow>
        (case names_loop (Name (steps ! i)) names of
           None \<Rightarrow> (candidates, required, names, allNames @ [Name (steps ! i)])
         | Some j \<Rightarrow>
             (candidates[i := True], required @ Requires (steps ! i),
              take j names @ drop (Suc j) names, allNames @ [Name (steps ! i)])))"

text \<open>
  One pass of the expansion: the body of the loop over the steps inside \<^verbatim>\<open>for { ... }\<close>.
  \<open>candidates\<close> is made with the length of \<open>steps\<close> and keeps it, so the index \<open>i\<close> of
  a step is in range for both.
\<close>

definition expand_body ::
  "Step list \<Rightarrow> nat \<Rightarrow> bool list \<times> StepLink list \<times> nat \<Rightarrow> bool list \<times> StepLink list \<times> nat" where
  "expand_body steps i st =
     (case st of (candidates, required, added) \<Rightarrow>
        if candidates ! i then (candidates, required, added)
        else if HasAnyLinks required (Creates (steps ! i))
        then (candidates[i := True], required @ Requires (steps ! i), added + 1)
        else (candidates, required, added))"

text \<open>
  The \<^verbatim>\<open>for { ... }\<close> loop runs passes until one adds nothing. Nothing in its syntax bounds
  it, so not returning is the value \<open>None\<close>; that it always returns is proved below
  (\<open>expand_loop_spec\<close>).
\<close>

partial_function (option) expand_loop ::
  "Step list \<Rightarrow> bool list \<Rightarrow> StepLink list \<Rightarrow> (bool list \<times> StepLink list) option" where
  "expand_loop steps candidates required =
     (case fold (expand_body steps) [0..<length steps] (candidates, required, 0) of
        (candidates', required', added) \<Rightarrow>
          if added = 0 then Some (candidates', required')
          else expand_loop steps candidates' required')"

definition targeted_loop :: "Step list \<Rightarrow> bool list \<Rightarrow> Step list" where
  "targeted_loop steps candidates =
     fold (\<lambda>i targeted. if candidates ! i then targeted @ [steps ! i] else targeted)
       [0..<length candidates] []"

text \<open>
  The result is \<open>None\<close> if the expansion does not return, \<open>Some (Inl e)\<close> for the Go result
  \<^verbatim>\<open>(nil, e)\<close> and \<open>Some (Inr forest)\<close> for \<^verbatim>\<open>(forest, nil)\<close>.
\<close>

definition BuildPartialGraph ::
  "Step list \<Rightarrow> string list \<Rightarrow> (error + nat list \<times> heap) option" where
  "BuildPartialGraph steps names =
     (if length names = 0 then Some (Inr (BuildGraph steps))
      else
        (case fold (match_body steps) [0..<length steps]
                (replicate (length steps) False, [], names, [])
         of (candidates, required, names', allNames) \<Rightarrow>
           if length names' > 0 then Some (Inl (notFound names' allNames))
           else
             (case expand_loop steps candidates required of
                None \<Rightarrow> None
              | Some (candidates', required') \<Rightarrow>
                  Some (Inr (BuildGraph (targeted_loop steps candidates'))))))"

section \<open>Notions used to state the properties\<close>

text \<open>
  \<open>dependsOn node other\<close>: some link that \<open>node\<close> requires is satisfied by some link that
  \<open>other\<close> creates.
\<close>

definition dependsOn :: "Step \<Rightarrow> Step \<Rightarrow> bool" where
  "dependsOn node other =
     (\<exists>r \<in> set (Requires node). \<exists>c \<in> set (Creates other). SatisfiedBy r c)"

text \<open>
  The result of \<open>addToNode\<close> on the store alone.
\<close>

definition addOnce :: "heap \<Rightarrow> nat \<Rightarrow> nat \<Rightarrow> heap" where
  "addOnce h parent child = fst (addToNode h parent child)"

text \<open>
  The step at position \<open>i\<close> is requested when its name occurs more often among the
  requested names than among the steps before it: names are matched to steps in step
  order, one occurrence per step. The unmatched names are what is left of the requested
  names after removing, for each step in turn, the first occurrence of its name.
\<close>

definition requested :: "Step list \<Rightarrow> string list \<Rightarrow> nat \<Rightarrow> bool" where
  "requested steps names i =
     (count_list (map Name (take i steps)) (Name (steps ! i))
        < count_list names (Name (steps ! i)))"

definition unmatched :: "Step list \<Rightarrow> string list \<Rightarrow> string list" where
  "unmatched steps names = fold remove1 (map Name steps) names"

text \<open>
  The selection: the requested steps, and every step that creates a link satisfying a
  requirement of a step already selected.
\<close>

inductive_set selected :: "Step list \<Rightarrow> string list \<Rightarrow> nat set"
  for steps :: "Step list" and names :: "string list" where
  requested: "i < length steps \<Longrightarrow> requested steps names i \<Longrightarrow> i \<in> selected steps names"
| provider: "j \<in> selected steps names \<Longrightarrow> i < length steps
    \<Longrightarrow> dependsOn (steps ! j) (steps ! i) \<Longrightarrow> i \<in> selected steps names"

definition selectedSteps :: "Step list \<Rightarrow> string list \<Rightarrow> Step list" where
  "selectedSteps steps names =
     map (\<lambda>i. steps ! i) (filter (\<lambda>i. i \<in> selected steps names) [0..<length steps])"

definition selectedIndex :: "Step list \<Rightarrow> string list \<Rightarrow> nat \<Rightarrow> nat" where
  "selectedIndex steps names a =
     filter (\<lambda>i. i \<in> selected steps names) [0..<length steps] ! a"

text \<open>
  The dependency relation of a step list, on positions: the pairs of a step that creates
  a link and a step with a requirement that this link satisfies.
\<close>

definition depRel :: "Step list \<Rightarrow> (nat \<times> nat) set" where
  "depRel steps =
     {(other, node). node < length steps \<and> other < length steps
        \<and> dependsOn (steps ! node) (steps ! other)}"

text \<open>
  The invariant of the expansion for a set \<open>S\<close> of positions: every candidate is in \<open>S\<close>,
  and \<open>required\<close> holds exactly the requirements of the candidates.
\<close>

definition frontier_inv :: "Step list \<Rightarrow> nat set \<Rightarrow> bool list \<Rightarrow> StepLink list \<Rightarrow> bool" where
  "frontier_inv steps S c r =
     (length c = length steps
      \<and> (\<forall>i<length steps. c ! i \<longrightarrow> i \<in> S)
      \<and> set r = (\<Union>i \<in> {i. i < length steps \<and> c ! i}. set (Requires (steps ! i))))"

section \<open>Example steps\<close>

text \<open>
  \<open>stepA\<close> creates the tag that \<open>stepB\<close> requires. \<open>cycA\<close> and \<open>cycB\<close> each require what
  the other creates. \<open>selfStep\<close> requires what it creates itself. \<open>twoLinkChild\<close> requires
  two links, both created by \<open>twoLinkParent\<close>.
\<close>

definition stepA :: Step where
  "stepA = \<lparr>Name = ''A'', Requires = [],
            Creates = [internalImageStreamTagLink ''pipeline'' ''x'']\<rparr>"

definition stepB :: Step where
  "stepB = \<lparr>Name = ''B'', Requires = [internalImageStreamTagLink ''pipeline'' ''x''],
            Creates = []\<rparr>"

definition cycA :: Step where
  "cycA = \<lparr>Name = ''A'', Requires = [internalImageStreamTagLink ''pipeline'' ''x''],
           Creates = [internalImageStreamTagLink ''pipeline'' ''y'']\<rparr>"

definition cycB :: Step where
  "cycB = \<lparr>Name = ''B'', Requires = [internalImageStreamTagLink ''pipeline'' ''y''],
           Creates = [internalImageStreamTagLink ''pipeline'' ''x'']\<rparr>"

definition selfStep :: Step where
  "selfStep = \<lparr>Name = ''rpm'', Requires = [rpmRepoLink], Creates = [rpmRepoLink]\<rparr>"

definition twoLinkParent :: Step where
  "twoLinkParent = \<lparr>Name = ''images'', Requires = [],
     Creates = [internalImageStreamTagLink ''pipeline'' ''x'', rpmRepoLink]\<rparr>"

definition twoLinkChild :: Step where
  "twoLinkChild = \<lparr>Name = ''test'',
     Requires = [internalImageStreamTagLink ''pipeline'' ''x'', rpmRepoLink], Creates = []\<rparr>"

section \<open>Properties of the link model\<close>

lemma HasAnyLinks_inner_iff:
  "HasAnyLinks_inner steps candidate = (\<exists>s \<in> set steps. SatisfiedBy s candidate)"
  by (induction steps) auto

lemma HasAnyLinks_iff:
  "HasAnyLinks steps candidates =
     (\<exists>c \<in> set candidates. \<exists>s \<in> set steps. SatisfiedBy s c)"
  by (induction candidates) (auto simp: HasAnyLinks_inner_iff)

lemma HasAllLinks_inner_iff:
  "HasAllLinks_inner needle haystack contains =
     (contains \<or> (\<exists>h \<in> set haystack. SatisfiedBy h needle))"
  by (induction haystack arbitrary: contains) auto

lemma HasAllLinks_iff:
  "HasAllLinks needles haystack =
     (\<forall>n \<in> set needles. \<exists>h \<in> set haystack. SatisfiedBy h n)"
  by (induction needles) (auto simp: HasAllLinks_inner_iff)

text \<open>
  Claim C2, evaluated on the code. The claim reads: HasAllLinks is true iff every needle
  \<open>n\<close> has a haystack member \<open>h\<close> with \<open>n.SatisfiedBy(h)\<close>. For the single needle
  "stream stable" and the haystack "tag stable:cli", the needle is not satisfied by the
  haystack member (a stream-level link is never satisfied by a tag-level one), yet
  HasAllLinks returns true; for the needle AllStepsLink and the haystack RPMRepoLink the
  needle is satisfied by the haystack member, yet HasAllLinks returns false. The loop calls
  \<^verbatim>\<open>hay.SatisfiedBy(needle)\<close>, receiver and argument exchanged (\<open>HasAllLinks_iff\<close>).
\<close>

theorem HasAllLinks_receiver_swapped:
  "HasAllLinks [internalImageStreamLink ''stable'']
               [internalImageStreamTagLink ''stable'' ''cli''] = True
   \<and> SatisfiedBy (internalImageStreamLink ''stable'')
                 (internalImageStreamTagLink ''stable'' ''cli'') = False
   \<and> HasAllLinks [AllStepsLink] [RPMRepoLink] = False
   \<and> SatisfiedBy AllStepsLink RPMRepoLink = True"
  by (simp add: AllStepsLink_def RPMRepoLink_def)

text \<open>
  Claim C5: satisfiability between internal stream links is directional. For every stream
  name \<open>n\<close> and tag \<open>t\<close>, the tag-level link for \<open>(n, t)\<close> is satisfied by the stream-level
  link for \<open>n\<close>, and the stream-level link for \<open>n\<close> is not satisfied by the tag-level link
  for \<open>(n, t)\<close>.
\<close>

theorem stream_tag_asymmetry:
  "SatisfiedBy (internalImageStreamTagLink n t) (internalImageStreamLink n)
   \<and> \<not> SatisfiedBy (internalImageStreamLink n) (internalImageStreamTagLink n t)"
  by simp

text \<open>
  Claim C6: for every link \<open>X\<close>, \<open>AllStepsLink().SatisfiedBy(X)\<close> is true; and for every
  link \<open>L\<close> that is not an AllStepsLink, \<open>L.SatisfiedBy(AllStepsLink())\<close> is false.
\<close>

theorem AllStepsLink_absorbs:
  "SatisfiedBy AllStepsLink X
   \<and> (L \<noteq> AllStepsLink \<longrightarrow> \<not> SatisfiedBy L AllStepsLink)"
  by (cases L) (simp_all add: AllStepsLink_def)

text \<open>
  Claim C6 at \<open>X\<close> an external image link and \<open>L\<close> the RPM repository link.
\<close>

theorem AllStepsLink_absorbs_witness:
  "rpmRepoLink \<noteq> AllStepsLink
   \<and> SatisfiedBy AllStepsLink (externalImageLink ''ocp'' ''4.5'' ''base'')
   \<and> \<not> SatisfiedBy rpmRepoLink AllStepsLink"
  using AllStepsLink_absorbs [of "externalImageLink ''ocp'' ''4.5'' ''base''" rpmRepoLink]
  by (simp add: AllStepsLink_def)


section \<open>What BuildGraph computes\<close>

lemma addToNode_loop_iff: "addToNode_loop xs child = (child \<in> set xs)"
  by (induction xs) auto

lemma length_addOnce [simp]: "length (addOnce h p c) = length h"
  by (simp add: addOnce_def addToNode_def)

lemma Step_addOnce [simp]: "Step (addOnce h p c ! k) = Step (h ! k)"
  by (cases "p < length h"; cases "k = p")
     (auto simp: addOnce_def addToNode_def nth_list_update list_update_beyond not_less)

lemma Children_addOnce:
  "p < length h \<Longrightarrow>
   Children (addOnce h p c ! k) =
     (if k = p \<and> c \<notin> set (Children (h ! p)) then Children (h ! p) @ [c]
      else Children (h ! k))"
  by (auto simp: addOnce_def addToNode_def addToNode_loop_iff nth_list_update)

lemma addOnce_idem [simp]: "addOnce (addOnce h p c) p c = addOnce h p c"
  by (cases "p < length h")
     (auto simp: addOnce_def addToNode_def addToNode_loop_iff nth_list_update
        list_update_beyond not_less)

text \<open>
  The two innermost loops, for one pair of nodes: the node is attached to the other (once)
  and is no root as soon as one of its requirements is satisfied by one created link.
\<close>

lemma creates_loop_eq:
  "creates_loop node other r cs (h, isRoot) =
     (if \<exists>c \<in> set cs. SatisfiedBy r c then (addOnce h other node, False) else (h, isRoot))"
proof (induction cs arbitrary: h isRoot)
  case Nil
  show ?case by simp
next
  case (Cons c cs)
  show ?case
    by (cases "SatisfiedBy r c") (simp_all add: Cons.IH addOnce_def [symmetric])
qed

lemma requires_loop_eq:
  "requires_loop node other rs (h, isRoot) =
     (if \<exists>r \<in> set rs. \<exists>c \<in> set (Creates (Step (h ! other))). SatisfiedBy r c
      then (addOnce h other node, False) else (h, isRoot))"
proof (induction rs arbitrary: h isRoot)
  case Nil
  show ?case by simp
next
  case (Cons r rs)
  show ?case
    by (cases "\<exists>c \<in> set (Creates (Step (h ! other))). SatisfiedBy r c")
       (simp_all add: Cons.IH creates_loop_eq)
qed

lemma pair_loop_eq:
  "requires_loop node other (Requires (Step (h ! node))) (h, isRoot) =
     (if dependsOn (Step (h ! node)) (Step (h ! other))
      then (addOnce h other node, False) else (h, isRoot))"
  by (simp add: requires_loop_eq dependsOn_def)

lemma others_loop_spec:
  assumes "set others \<subseteq> {..<length h}"
  shows "length (fst (others_loop node others (h, isRoot))) = length h
    \<and> (\<forall>k. Step (fst (others_loop node others (h, isRoot)) ! k) = Step (h ! k))
    \<and> snd (others_loop node others (h, isRoot)) =
        (isRoot \<and> (\<forall>other \<in> set others. \<not> dependsOn (Step (h ! node)) (Step (h ! other))))
    \<and> (\<forall>k<length h. Children (fst (others_loop node others (h, isRoot)) ! k) =
        (if k \<in> set others \<and> dependsOn (Step (h ! node)) (Step (h ! k))
            \<and> node \<notin> set (Children (h ! k))
         then Children (h ! k) @ [node] else Children (h ! k)))"
  using assms
proof (induction others arbitrary: h isRoot)
  case Nil
  show ?case by simp
next
  case (Cons other rest)
  from Cons.prems have other: "other < length h" and rest: "set rest \<subseteq> {..<length h}"
    by auto
  show ?case
  proof (cases "dependsOn (Step (h ! node)) (Step (h ! other))")
    case True
    have rest': "set rest \<subseteq> {..<length (addOnce h other node)}"
      using rest by simp
    show ?thesis
      using Cons.IH [OF rest', of False] True other
      by (auto simp: pair_loop_eq Children_addOnce)
  next
    case False
    show ?thesis
      using Cons.IH [OF rest, of isRoot] False
      by (auto simp: pair_loop_eq)
  qed
qed

lemma nodes_loop_spec:
  assumes "set allNodes \<subseteq> {..<length h}" and "distinct nodes"
    and "\<forall>k<length h. set (Children (h ! k)) \<inter> set nodes = {}"
  shows "length (fst (nodes_loop allNodes nodes (h, roots))) = length h
    \<and> (\<forall>k. Step (fst (nodes_loop allNodes nodes (h, roots)) ! k) = Step (h ! k))
    \<and> snd (nodes_loop allNodes nodes (h, roots)) =
        roots @ filter (\<lambda>node. \<forall>other \<in> set allNodes.
                         \<not> dependsOn (Step (h ! node)) (Step (h ! other))) nodes
    \<and> (\<forall>k<length h. Children (fst (nodes_loop allNodes nodes (h, roots)) ! k) =
        Children (h ! k) @
        filter (\<lambda>node. k \<in> set allNodes \<and> dependsOn (Step (h ! node)) (Step (h ! k))) nodes)"
  using assms
proof (induction nodes arbitrary: h roots)
  case Nil
  show ?case by simp
next
  case (Cons node rest)
  obtain h1 isRoot where o: "others_loop node allNodes (h, True) = (h1, isRoot)"
    by (cases "others_loop node allNodes (h, True)")
  note spec = others_loop_spec [OF Cons.prems(1), of node True, unfolded o fst_conv snd_conv]
  from spec have len: "length h1 = length h" by simp
  from spec have st: "\<And>k. Step (h1 ! k) = Step (h ! k)" by simp
  from spec have root: "isRoot =
    (\<forall>other \<in> set allNodes. \<not> dependsOn (Step (h ! node)) (Step (h ! other)))" by simp
  from spec have ch: "\<And>k. k < length h \<Longrightarrow> Children (h1 ! k) =
        (if k \<in> set allNodes \<and> dependsOn (Step (h ! node)) (Step (h ! k))
            \<and> node \<notin> set (Children (h ! k))
         then Children (h ! k) @ [node] else Children (h ! k))" by simp
  have fresh: "\<And>k. k < length h \<Longrightarrow> node \<notin> set (Children (h ! k))"
    using Cons.prems(3) by auto
  have p1: "set allNodes \<subseteq> {..<length h1}" using Cons.prems(1) len by simp
  have p2: "distinct rest" using Cons.prems(2) by simp
  have p3: "\<forall>k<length h1. set (Children (h1 ! k)) \<inter> set rest = {}"
    using Cons.prems(2,3) len by (auto simp: ch fresh split: if_splits)
  note ih = Cons.IH [OF p1 p2 p3, of "if isRoot then roots @ [node] else roots"]
  show ?case
    using ih by (auto simp: o st len root ch fresh)
qed

text \<open>
  Roots, store size, steps and children of the result, in closed form.
\<close>

lemma BuildGraph_spec:
  "fst (BuildGraph steps) =
     filter (\<lambda>node. \<forall>other<length steps. \<not> dependsOn (steps ! node) (steps ! other))
       [0..<length steps]"
  "length (snd (BuildGraph steps)) = length steps"
  "k < length steps \<Longrightarrow> Step (snd (BuildGraph steps) ! k) = steps ! k"
  "k < length steps \<Longrightarrow> Children (snd (BuildGraph steps) ! k) =
     filter (\<lambda>node. dependsOn (steps ! node) (steps ! k)) [0..<length steps]"
proof -
  let ?h = "map (\<lambda>step. \<lparr>Step = step, Children = []\<rparr>) steps"
  let ?all = "[0..<length steps]"
  have a1: "set ?all \<subseteq> {..<length ?h}" by auto
  have a2: "distinct ?all" by simp
  have a3: "\<forall>k<length ?h. set (Children (?h ! k)) \<inter> set ?all = {}" by simp
  note spec = nodes_loop_spec [OF a1 a2 a3, of "[]"]
  have fs: "fst (BuildGraph steps) = snd (nodes_loop ?all ?all (?h, []))"
    and sn: "snd (BuildGraph steps) = fst (nodes_loop ?all ?all (?h, []))"
    by (simp_all add: BuildGraph_def split: prod.splits)
  show "fst (BuildGraph steps) =
     filter (\<lambda>node. \<forall>other<length steps. \<not> dependsOn (steps ! node) (steps ! other))
       [0..<length steps]"
    using spec by (auto simp: fs intro!: filter_cong)
  show "length (snd (BuildGraph steps)) = length steps"
    using spec by (simp add: sn)
  show "k < length steps \<Longrightarrow> Step (snd (BuildGraph steps) ! k) = steps ! k"
    using spec by (simp add: sn)
  show "k < length steps \<Longrightarrow> Children (snd (BuildGraph steps) ! k) =
     filter (\<lambda>node. dependsOn (steps ! node) (steps ! k)) [0..<length steps]"
    using spec by (auto simp: sn intro!: filter_cong)
qed

lemma reach_no_roots: "reach h [] = {}"
proof -
  have "a \<in> reach h [] \<Longrightarrow> False" for a
    by (induction rule: reach.induct) auto
  then show ?thesis by auto
qed

lemma reach_bound:
  "a \<in> reach (snd (BuildGraph steps)) (fst (BuildGraph steps)) \<Longrightarrow> a < length steps"
proof (induction rule: reach.induct)
  case (root r)
  then show ?case by (simp add: BuildGraph_spec(1))
next
  case (child p c)
  then show ?case by (simp add: BuildGraph_spec(4))
qed

text \<open>
  Without a dependency cycle every node is reached from a root.
\<close>

lemma finite_depRel: "finite (depRel steps)"
proof (rule finite_subset)
  show "depRel steps \<subseteq> {..<length steps} \<times> {..<length steps}"
    by (auto simp: depRel_def)
qed simp

lemma acyclic_all_reached:
  assumes "acyclic (depRel steps)" and "i < length steps"
  shows "i \<in> reach (snd (BuildGraph steps)) (fst (BuildGraph steps))"
proof -
  have "wf (depRel steps)"
    using finite_depRel assms(1) by (rule finite_acyclic_wf)
  then show ?thesis using assms(2)
  proof (induction i rule: wf_induct_rule)
    case (less i)
    show ?case
    proof (cases "\<exists>j<length steps. dependsOn (steps ! i) (steps ! j)")
      case False
      with less.prems have "i \<in> set (fst (BuildGraph steps))"
        by (simp add: BuildGraph_spec(1))
      then show ?thesis by (rule reach.root)
    next
      case True
      then obtain j where j: "j < length steps" "dependsOn (steps ! i) (steps ! j)"
        by blast
      with less.prems have "(j, i) \<in> depRel steps" by (simp add: depRel_def)
      from less.IH [OF this j(1)]
      have "j \<in> reach (snd (BuildGraph steps)) (fst (BuildGraph steps))" .
      moreover have "i \<in> set (Children (snd (BuildGraph steps) ! j))"
        using j less.prems by (simp add: BuildGraph_spec(4))
      ultimately show ?thesis by (rule reach.child)
    qed
  qed
qed

lemma acyclic_forestSteps:
  assumes "acyclic (depRel steps)"
  shows "forestSteps (BuildGraph steps) = set steps"
proof
  show "forestSteps (BuildGraph steps) \<subseteq> set steps"
    using reach_bound [of _ steps]
    by (auto simp: forestSteps_def BuildGraph_spec(3))
next
  show "set steps \<subseteq> forestSteps (BuildGraph steps)"
  proof
    fix s assume "s \<in> set steps"
    then obtain i where i: "i < length steps" "s = steps ! i"
      by (auto simp: in_set_conv_nth)
    from acyclic_all_reached [OF assms i(1)] i
    show "s \<in> forestSteps (BuildGraph steps)"
      unfolding forestSteps_def
      by (metis BuildGraph_spec(3) imageI)
  qed
qed

lemmas run_simps =
  BuildPartialGraph_def match_body_def expand_loop.simps expand_body_def
  targeted_loop_def BuildGraph_def addToNode_def notFound_def

text \<open>
  Claim C1, evaluated on the code. The claim reads: BuildGraph compares only pairs of
  distinct nodes, so that a step whose requirements are satisfied only by its own created
  links is still a forest root and never among its own children. The doc comment of
  \<^verbatim>\<open>BuildGraph\<close> says that it returns graphs that include all steps given. \<open>selfStep\<close>
  requires the link it creates. Alone in the step list it is compared with itself: it is
  marked as non-root and attached to itself, no root is returned, and the returned forest
  does not hold the step.
\<close>

theorem BuildGraph_self_pair:
  "dependsOn selfStep selfStep
   \<and> BuildGraph [selfStep] = ([], [\<lparr>Step = selfStep, Children = [0]\<rparr>])
   \<and> 0 \<notin> set (fst (BuildGraph [selfStep]))
   \<and> 0 \<in> set (Children (snd (BuildGraph [selfStep]) ! 0))
   \<and> selfStep \<notin> forestSteps (BuildGraph [selfStep])"
proof -
  have d: "dependsOn selfStep selfStep"
    by (simp add: dependsOn_def selfStep_def)
  have b: "BuildGraph [selfStep] = ([], [\<lparr>Step = selfStep, Children = [0]\<rparr>])"
    by (simp add: selfStep_def BuildGraph_def addToNode_def)
  have "selfStep \<notin> forestSteps (BuildGraph [selfStep])"
    unfolding b by (simp add: forestSteps_def reach_no_roots)
  with d b show ?thesis by simp
qed

text \<open>
  Claim C8: in the store returned by BuildGraph no node's children list holds the same
  child address twice, however many pairs of links connect the two steps.
\<close>

theorem children_distinct:
  "\<forall>node \<in> set (snd (BuildGraph steps)). distinct (Children node)"
proof
  fix node
  assume "node \<in> set (snd (BuildGraph steps))"
  then obtain k where "k < length steps" "node = snd (BuildGraph steps) ! k"
    by (auto simp: in_set_conv_nth BuildGraph_spec(2))
  then show "distinct (Children node)"
    by (simp add: BuildGraph_spec(4))
qed

text \<open>
  Claim C8 at a parent and a child connected by two pairs of links: the child is attached
  once.
\<close>

theorem children_distinct_witness:
  "\<lparr>Step = twoLinkParent, Children = [1]\<rparr> \<in> set (snd (BuildGraph [twoLinkParent, twoLinkChild]))
   \<and> distinct (Children \<lparr>Step = twoLinkParent, Children = [1]\<rparr>)"
  using children_distinct [of "[twoLinkParent, twoLinkChild]"]
  by (simp add: twoLinkParent_def twoLinkChild_def BuildGraph_def addToNode_def)

text \<open>
  Claim C10: there is a non-empty step list for which BuildGraph returns no root. In the
  list of \<open>cycA\<close> and \<open>cycB\<close> every step has a requirement satisfied by a link the other
  step creates; every node is marked as non-root, and the returned forest holds no step.
\<close>

theorem empty_forest_exists:
  "\<exists>steps. steps \<noteq> []
     \<and> list_all (\<lambda>s. list_ex (\<lambda>t. t \<noteq> s \<and> dependsOn s t) steps) steps
     \<and> fst (BuildGraph steps) = []
     \<and> forestSteps (BuildGraph steps) = {}"
proof (intro exI [of _ "[cycA, cycB]"] conjI)
  show "[cycA, cycB] \<noteq> []" by simp
  show "list_all (\<lambda>s. list_ex (\<lambda>t. t \<noteq> s \<and> dependsOn s t) [cycA, cycB]) [cycA, cycB]"
    by (simp add: cycA_def cycB_def dependsOn_def)
  show r: "fst (BuildGraph [cycA, cycB]) = []"
    by (simp add: cycA_def cycB_def BuildGraph_def addToNode_def)
  show "forestSteps (BuildGraph [cycA, cycB]) = {}"
    by (simp add: forestSteps_def r reach_no_roots)
qed

section \<open>What BuildPartialGraph computes\<close>

lemma names_loop_None: "(names_loop x ns = None) = (x \<notin> set ns)"
  by (induction ns) auto

lemma names_loop_Some:
  "names_loop x ns = Some j \<Longrightarrow> take j ns @ drop (Suc j) ns = remove1 x ns"
  by (induction ns arbitrary: j) (auto split: if_splits)

lemma match_body_eq:
  "match_body steps i (c, r, ns, all) =
     (if Name (steps ! i) \<in> set ns
      then (c[i := True], r @ Requires (steps ! i), remove1 (Name (steps ! i)) ns,
            all @ [Name (steps ! i)])
      else (c, r, remove1 (Name (steps ! i)) ns, all @ [Name (steps ! i)]))"
proof (cases "names_loop (Name (steps ! i)) ns")
  case None
  then have "Name (steps ! i) \<notin> set ns"
    by (simp add: names_loop_None)
  with None show ?thesis
    by (simp add: match_body_def remove1_idem)
next
  case (Some j)
  then have "Name (steps ! i) \<in> set ns"
    using names_loop_None [of "Name (steps ! i)" ns] by auto
  with Some show ?thesis
    by (simp add: match_body_def names_loop_Some)
qed

lemma mset_fold_remove1: "mset (fold remove1 xs ns) = mset ns - mset xs"
  by (induction xs arbitrary: ns) simp_all

lemma in_fold_remove1:
  "(x \<in> set (fold remove1 xs ns)) = (count_list xs x < count_list ns x)"
proof -
  have "(x \<in> set (fold remove1 xs ns)) = (x \<in># mset ns - mset xs)"
    by (simp add: mset_fold_remove1 [symmetric])
  also have "\<dots> = (count (mset xs) x < count (mset ns) x)"
    by (simp add: in_diff_count)
  finally show ?thesis by (simp add: count_mset)
qed

text \<open>
  The first loop in closed form, after \<open>k\<close> steps: the candidates are the requested steps
  among the first \<open>k\<close>, \<open>required\<close> holds their requirements, the names of the first \<open>k\<close>
  steps have been removed from \<open>names\<close>, one occurrence each, and \<open>allNames\<close> holds them.
\<close>

lemma match_loop_eq:
  "k \<le> length steps \<Longrightarrow>
   fold (match_body steps) [0..<k] (replicate (length steps) False, [], names, []) =
     (map (\<lambda>i. i < k \<and> requested steps names i) [0..<length steps],
      concat (map (\<lambda>i. Requires (steps ! i)) (filter (requested steps names) [0..<k])),
      fold remove1 (map Name (take k steps)) names,
      map Name (take k steps))"
proof (induction k)
  case 0
  show ?case by (simp add: map_replicate_const)
next
  case (Suc k)
  then have k: "k < length steps" by simp
  have req: "(Name (steps ! k) \<in> set (fold remove1 (map Name (take k steps)) names))
               = requested steps names k"
    by (simp add: in_fold_remove1 requested_def)
  have upd: "requested steps names k \<Longrightarrow>
      (map (\<lambda>i. i < k \<and> requested steps names i) [0..<length steps])[k := True]
        = map (\<lambda>i. i < Suc k \<and> requested steps names i) [0..<length steps]"
    using k by (intro nth_equalityI) (auto simp: nth_list_update less_Suc_eq)
  have keep: "\<not> requested steps names k \<Longrightarrow>
      map (\<lambda>i. i < k \<and> requested steps names i) [0..<length steps]
        = map (\<lambda>i. i < Suc k \<and> requested steps names i) [0..<length steps]"
    by (auto simp: less_Suc_eq)
  show ?case
    using Suc.IH k
    by (simp add: match_body_eq req upd keep take_Suc_conv_app_nth)
qed

lemma unmatched_empty_iff:
  "(unmatched steps names = []) = (mset names \<subseteq># mset (map Name steps))"
proof -
  have "(unmatched steps names = []) = (mset (unmatched steps names) = {#})"
    by simp
  also have "\<dots> = (mset names \<subseteq># mset (map Name steps))"
    unfolding unmatched_def mset_fold_remove1 by (rule Diff_eq_empty_iff_mset)
  finally show ?thesis .
qed

lemma expand_body_eq:
  "expand_body steps i (c, r, a) =
     (if \<not> c ! i \<and> HasAnyLinks r (Creates (steps ! i))
      then (c[i := True], r @ Requires (steps ! i), Suc a) else (c, r, a))"
  by (simp add: expand_body_def)

lemma frontier_inv_add:
  assumes inv: "frontier_inv steps S c r"
    and closed: "\<forall>j \<in> S. \<forall>i<length steps. dependsOn (steps ! j) (steps ! i) \<longrightarrow> i \<in> S"
    and k: "k < length steps"
    and hit: "HasAnyLinks r (Creates (steps ! k))"
  shows "frontier_inv steps S (c[k := True]) (r @ Requires (steps ! k))"
proof -
  from hit obtain cr x where cr: "cr \<in> set (Creates (steps ! k))"
    and x: "x \<in> set r" and sat: "SatisfiedBy x cr"
    by (auto simp: HasAnyLinks_iff)
  from x inv obtain j where j: "j < length steps" "c ! j" "x \<in> set (Requires (steps ! j))"
    by (auto simp: frontier_inv_def)
  from j inv have "j \<in> S" by (simp add: frontier_inv_def)
  moreover have "dependsOn (steps ! j) (steps ! k)"
    using j cr sat by (auto simp: dependsOn_def)
  ultimately have kS: "k \<in> S" using closed k by blast
  have len: "length c = length steps" using inv by (simp add: frontier_inv_def)
  have idx: "{i. i < length steps \<and> c[k := True] ! i} = insert k {i. i < length steps \<and> c ! i}"
    using k len by (auto simp: nth_list_update)
  have mem: "\<forall>i<length steps. c[k := True] ! i \<longrightarrow> i \<in> S"
    using inv kS len k by (auto simp: frontier_inv_def nth_list_update split: if_splits)
  have fr: "set (r @ Requires (steps ! k)) =
      (\<Union>i \<in> {i. i < length steps \<and> c[k := True] ! i}. set (Requires (steps ! i)))"
    using inv unfolding idx by (auto simp: frontier_inv_def)
  show ?thesis
    unfolding frontier_inv_def using len mem fr by simp
qed

text \<open>
  One pass: candidates are only added; the counter is unchanged iff nothing was added, and
  then no step outside the candidates creates a link that satisfies a required one; a pass
  that counts something has turned a non-candidate into a candidate.
\<close>

lemma pass_spec:
  assumes len: "length c = length steps" and k: "k \<le> length steps"
    and closed: "\<forall>j \<in> S. \<forall>i<length steps. dependsOn (steps ! j) (steps ! i) \<longrightarrow> i \<in> S"
  shows "\<exists>c' r' a'. fold (expand_body steps) [0..<k] (c, r, a) = (c', r', a')
    \<and> length c' = length c
    \<and> (\<forall>i<length c. c ! i \<longrightarrow> c' ! i)
    \<and> a \<le> a'
    \<and> (a' = a \<longrightarrow> c' = c \<and> r' = r
          \<and> (\<forall>i<k. c ! i \<or> \<not> HasAnyLinks r (Creates (steps ! i))))
    \<and> (a < a' \<longrightarrow> (\<exists>i<length c. \<not> c ! i \<and> c' ! i))
    \<and> (frontier_inv steps S c r \<longrightarrow> frontier_inv steps S c' r')"
  using k
proof (induction k)
  case 0
  show ?case by simp
next
  case (Suc k)
  then have k: "k < length steps" by simp
  from Suc obtain c1 r1 a1 where
    f: "fold (expand_body steps) [0..<k] (c, r, a) = (c1, r1, a1)"
    and l1: "length c1 = length c"
    and m1: "\<forall>i<length c. c ! i \<longrightarrow> c1 ! i"
    and a1: "a \<le> a1"
    and e1: "a1 = a \<longrightarrow> c1 = c \<and> r1 = r
          \<and> (\<forall>i<k. c ! i \<or> \<not> HasAnyLinks r (Creates (steps ! i)))"
    and s1: "a < a1 \<longrightarrow> (\<exists>i<length c. \<not> c ! i \<and> c1 ! i)"
    and i1: "frontier_inv steps S c r \<longrightarrow> frontier_inv steps S c1 r1"
    by auto
  show ?case
  proof (cases "\<not> c1 ! k \<and> HasAnyLinks r1 (Creates (steps ! k))")
    case False
    then have "fold (expand_body steps) [0..<Suc k] (c, r, a) = (c1, r1, a1)"
      by (auto simp: f expand_body_eq)
    moreover have "a1 = a \<longrightarrow> (\<forall>i<Suc k. c ! i \<or> \<not> HasAnyLinks r (Creates (steps ! i)))"
      using e1 False by (auto simp: less_Suc_eq)
    ultimately show ?thesis
      using l1 m1 a1 e1 s1 i1 by simp
  next
    case True
    then have g: "fold (expand_body steps) [0..<Suc k] (c, r, a) =
        (c1[k := True], r1 @ Requires (steps ! k), Suc a1)"
      by (simp add: f expand_body_eq)
    have kc: "k < length c" using k len by simp
    have mono: "\<forall>i<length c. c ! i \<longrightarrow> c1[k := True] ! i"
      using m1 l1 kc by (auto simp: nth_list_update)
    have flip: "\<exists>i<length c. \<not> c ! i \<and> c1[k := True] ! i"
    proof (cases "a < a1")
      case True
      with s1 obtain i where "i < length c" "\<not> c ! i" "c1 ! i" by auto
      then show ?thesis using l1 kc by (auto simp: nth_list_update)
    next
      case False
      with a1 e1 have "c1 = c" by simp
      with True kc show ?thesis by (auto simp: nth_list_update)
    qed
    have inv: "frontier_inv steps S c r \<longrightarrow>
        frontier_inv steps S (c1[k := True]) (r1 @ Requires (steps ! k))"
      using i1 frontier_inv_add [OF _ closed k] True by blast
    show ?thesis
      using g l1 mono a1 flip inv by auto
  qed
qed

text \<open>
  The expansion returns: every pass that does not end it removes a step from those that are
  not candidates. Its result is closed under the dependency relation.
\<close>

lemma expand_loop_spec:
  assumes closed: "\<forall>j \<in> S. \<forall>i<length steps. dependsOn (steps ! j) (steps ! i) \<longrightarrow> i \<in> S"
    and inv: "frontier_inv steps S c r"
  shows "\<exists>c' r'. expand_loop steps c r = Some (c', r')
    \<and> frontier_inv steps S c' r'
    \<and> (\<forall>i<length steps. c ! i \<longrightarrow> c' ! i)
    \<and> (\<forall>i<length steps. c' ! i \<or> \<not> HasAnyLinks r' (Creates (steps ! i)))"
  using inv
proof (induction "card {i. i < length steps \<and> \<not> c ! i}" arbitrary: c r rule: less_induct)
  case less
  from less.prems have len: "length c = length steps"
    by (simp add: frontier_inv_def)
  from pass_spec [OF len le_refl closed, of r 0] less.prems
  obtain c1 r1 a1 where
    f: "fold (expand_body steps) [0..<length steps] (c, r, 0) = (c1, r1, a1)"
    and l1: "length c1 = length c"
    and m1: "\<forall>i<length c. c ! i \<longrightarrow> c1 ! i"
    and e1: "a1 = 0 \<longrightarrow> c1 = c \<and> r1 = r
          \<and> (\<forall>i<length steps. c ! i \<or> \<not> HasAnyLinks r (Creates (steps ! i)))"
    and s1: "0 < a1 \<longrightarrow> (\<exists>i<length c. \<not> c ! i \<and> c1 ! i)"
    and i1: "frontier_inv steps S c1 r1"
    by auto
  show ?case
  proof (cases "a1 = 0")
    case True
    have "expand_loop steps c r = Some (c1, r1)"
      by (subst expand_loop.simps) (simp add: f True)
    with True e1 less.prems show ?thesis by auto
  next
    case False
    have eq: "expand_loop steps c r = expand_loop steps c1 r1"
      by (subst expand_loop.simps) (simp add: f False)
    from False s1 obtain i0 where i0: "i0 < length c" "\<not> c ! i0" "c1 ! i0" by auto
    have "{i. i < length steps \<and> \<not> c1 ! i} \<subset> {i. i < length steps \<and> \<not> c ! i}"
      using m1 i0 len by auto
    then have "card {i. i < length steps \<and> \<not> c1 ! i} < card {i. i < length steps \<and> \<not> c ! i}"
      by (intro psubset_card_mono) auto
    from less.hyps [OF this i1] obtain c' r' where
      "expand_loop steps c1 r1 = Some (c', r')" "frontier_inv steps S c' r'"
      "\<forall>i<length steps. c1 ! i \<longrightarrow> c' ! i"
      "\<forall>i<length steps. c' ! i \<or> \<not> HasAnyLinks r' (Creates (steps ! i))"
      by auto
    with eq m1 len show ?thesis by auto
  qed
qed

lemma selected_closed:
  "\<forall>j \<in> selected steps names. \<forall>i<length steps.
     dependsOn (steps ! j) (steps ! i) \<longrightarrow> i \<in> selected steps names"
  by (auto intro: selected.provider)

lemma frontier_inv_seed:
  "frontier_inv steps (selected steps names)
     (map (\<lambda>i. i < length steps \<and> requested steps names i) [0..<length steps])
     (concat (map (\<lambda>i. Requires (steps ! i))
        (filter (requested steps names) [0..<length steps])))"
  by (auto simp: frontier_inv_def intro: selected.requested)

lemma expand_loop_selected:
  "\<exists>c' r'. expand_loop steps
       (map (\<lambda>i. i < length steps \<and> requested steps names i) [0..<length steps])
       (concat (map (\<lambda>i. Requires (steps ! i))
          (filter (requested steps names) [0..<length steps]))) = Some (c', r')
     \<and> length c' = length steps
     \<and> (\<forall>i<length steps. c' ! i = (i \<in> selected steps names))"
proof -
  let ?c = "map (\<lambda>i. i < length steps \<and> requested steps names i) [0..<length steps]"
  from expand_loop_spec [OF selected_closed frontier_inv_seed, of steps names]
  obtain c' r' where
    run: "expand_loop steps ?c
       (concat (map (\<lambda>i. Requires (steps ! i))
          (filter (requested steps names) [0..<length steps]))) = Some (c', r')"
    and inv: "frontier_inv steps (selected steps names) c' r'"
    and mono: "\<forall>i<length steps. ?c ! i \<longrightarrow> c' ! i"
    and stable: "\<forall>i<length steps. c' ! i \<or> \<not> HasAnyLinks r' (Creates (steps ! i))"
    by blast
  have "i \<in> selected steps names \<Longrightarrow> c' ! i" for i
  proof (induction rule: selected.induct)
    case (requested i)
    then show ?case using mono by simp
  next
    case (provider j i)
    from provider.hyps(1) have j: "j < length steps"
      by (cases rule: selected.cases) auto
    from provider.hyps(3) obtain x cr where
      "x \<in> set (Requires (steps ! j))" "cr \<in> set (Creates (steps ! i))" "SatisfiedBy x cr"
      by (auto simp: dependsOn_def)
    moreover have "set (Requires (steps ! j)) \<subseteq> set r'"
      using inv j provider.IH by (auto simp: frontier_inv_def)
    ultimately have "HasAnyLinks r' (Creates (steps ! i))"
      by (auto simp: HasAnyLinks_iff)
    with stable provider.hyps(2) show ?case by blast
  qed
  with inv run show ?thesis
    by (auto simp: frontier_inv_def)
qed

lemma targeted_fold:
  "fold (\<lambda>i targeted. if c ! i then targeted @ [steps ! i] else targeted) [0..<k] [] =
     map (\<lambda>i. steps ! i) (filter (\<lambda>i. c ! i) [0..<k])"
  by (induction k) simp_all

lemma BuildPartialGraph_eq:
  assumes "names \<noteq> []"
  shows "BuildPartialGraph steps names =
     (if unmatched steps names \<noteq> []
      then Some (Inl (notFound (unmatched steps names) (map Name steps)))
      else Some (Inr (BuildGraph (selectedSteps steps names))))"
proof -
  from expand_loop_selected [of steps names] obtain c' r' where
    run: "expand_loop steps
       (map (\<lambda>i. i < length steps \<and> requested steps names i) [0..<length steps])
       (concat (map (\<lambda>i. Requires (steps ! i))
          (filter (requested steps names) [0..<length steps]))) = Some (c', r')"
    and len: "length c' = length steps"
    and sel: "\<forall>i<length steps. c' ! i = (i \<in> selected steps names)"
    by blast
  have "filter (\<lambda>i. c' ! i) [0..<length steps] =
      filter (\<lambda>i. i \<in> selected steps names) [0..<length steps]"
    by (rule filter_cong) (use sel in auto)
  then have "targeted_loop steps c' = selectedSteps steps names"
    by (simp add: targeted_loop_def targeted_fold selectedSteps_def len)
  with assms run show ?thesis
    by (simp add: BuildPartialGraph_def match_loop_eq unmatched_def)
qed

text \<open>
  The forest over a set of positions closed under the dependency relation: a node is a root
  there iff it is a root in the full graph, and its children are children in the full graph.
\<close>

lemma sub_forest:
  assumes closed: "\<forall>j \<in> S. \<forall>i<length steps. dependsOn (steps ! j) (steps ! i) \<longrightarrow> i \<in> S"
    and idx: "idx = filter (\<lambda>i. i \<in> S) [0..<length steps]"
    and T: "T = map (\<lambda>i. steps ! i) idx"
    and a: "a \<in> reach (snd (BuildGraph T)) (fst (BuildGraph T))"
  shows "a < length idx \<and> idx ! a \<in> reach (snd (BuildGraph steps)) (fst (BuildGraph steps))"
proof -
  have lenT: "length T = length idx" by (simp add: T)
  have in_idx: "b < length idx \<Longrightarrow> idx ! b < length steps \<and> idx ! b \<in> S" for b
    using nth_mem [of b idx] by (auto simp: idx)
  have nthT: "b < length idx \<Longrightarrow> T ! b = steps ! (idx ! b)" for b
    by (simp add: T)
  have pre: "i \<in> S \<Longrightarrow> i < length steps \<Longrightarrow> \<exists>b<length idx. idx ! b = i" for i
  proof -
    assume "i \<in> S" "i < length steps"
    then have "i \<in> set idx" by (simp add: idx)
    then show ?thesis by (auto simp: in_set_conv_nth)
  qed
  from a show ?thesis
  proof (induction rule: reach.induct)
    case (root r)
    then have r: "r < length idx"
      and free: "\<forall>other<length idx. \<not> dependsOn (T ! r) (T ! other)"
      by (auto simp: BuildGraph_spec(1) lenT)
    have "\<not> dependsOn (steps ! (idx ! r)) (steps ! j)" if j: "j < length steps" for j
    proof
      assume d: "dependsOn (steps ! (idx ! r)) (steps ! j)"
      with closed in_idx [OF r] j have "j \<in> S" by blast
      with pre j obtain b where "b < length idx" "idx ! b = j" by blast
      with d free r show False by (auto simp: nthT)
    qed
    then have "idx ! r \<in> set (fst (BuildGraph steps))"
      using in_idx [OF r] by (simp add: BuildGraph_spec(1))
    with r show ?case by (auto intro: reach.root)
  next
    case (child p c)
    then have p: "p < length idx"
      and pr: "idx ! p \<in> reach (snd (BuildGraph steps)) (fst (BuildGraph steps))"
      by auto
    from child.hyps(2) p have c: "c < length idx" and d: "dependsOn (T ! c) (T ! p)"
      by (auto simp: BuildGraph_spec(4) lenT)
    from d c p have "dependsOn (steps ! (idx ! c)) (steps ! (idx ! p))"
      by (simp add: nthT)
    then have "idx ! c \<in> set (Children (snd (BuildGraph steps) ! (idx ! p)))"
      using in_idx [OF c] in_idx [OF p] by (simp add: BuildGraph_spec(4))
    with pr c show ?case by (auto intro: reach.child)
  qed
qed

lemma forestSteps_selected:
  "forestSteps (BuildGraph (selectedSteps steps names)) \<subseteq> set (selectedSteps steps names)
   \<and> forestSteps (BuildGraph (selectedSteps steps names)) \<subseteq> forestSteps (BuildGraph steps)"
proof -
  let ?idx = "filter (\<lambda>i. i \<in> selected steps names) [0..<length steps]"
  let ?T = "selectedSteps steps names"
  have T: "?T = map (\<lambda>i. steps ! i) ?idx" by (simp add: selectedSteps_def)
  have "Step (snd (BuildGraph ?T) ! a) \<in> set ?T
      \<and> Step (snd (BuildGraph ?T) ! a) \<in> forestSteps (BuildGraph steps)"
    if a: "a \<in> reach (snd (BuildGraph ?T)) (fst (BuildGraph ?T))" for a
  proof -
    from sub_forest [OF selected_closed refl T a]
    have b: "a < length ?idx"
      and r: "?idx ! a \<in> reach (snd (BuildGraph steps)) (fst (BuildGraph steps))"
      by auto
    from b have aT: "a < length ?T" by (simp add: T)
    have st: "Step (snd (BuildGraph ?T) ! a) = steps ! (?idx ! a)"
      using aT b by (simp add: BuildGraph_spec(3)) (simp add: T)
    from reach_bound [OF r] have "Step (snd (BuildGraph steps) ! (?idx ! a)) = steps ! (?idx ! a)"
      by (simp add: BuildGraph_spec(3))
    with r st have "Step (snd (BuildGraph ?T) ! a) \<in> forestSteps (BuildGraph steps)"
      unfolding forestSteps_def by (metis imageI)
    moreover have "Step (snd (BuildGraph ?T) ! a) \<in> set ?T"
      using aT by (simp add: BuildGraph_spec(3))
    ultimately show ?thesis by simp
  qed
  then show ?thesis
    unfolding forestSteps_def by blast
qed

text \<open>
  Claim C9: with an empty list of names BuildPartialGraph returns \<open>BuildGraph(steps)\<close> and no
  error.
\<close>

theorem BuildPartialGraph_no_names:
  "BuildPartialGraph steps [] = Some (Inr (BuildGraph steps))"
  by (simp add: BuildPartialGraph_def)

text \<open>
  \<open>Join\<close> in closed form: the first element, then every other element after a separator.
\<close>

lemma Join_eq:
  "Join xs sep = (case xs of [] \<Rightarrow> [] | x # rest \<Rightarrow> x @ concat (map (\<lambda>y. sep @ y) rest))"
  by (induction xs sep rule: Join.induct) simp_all

text \<open>
  Claim C3: with a non-empty list of names BuildPartialGraph returns an error, and no
  forest, exactly when the requested names, as a multiset, are not contained in the names of
  the steps: when some requested occurrence of a name finds no step of its own. The message
  of the error is the fixed text, then the unmatched names separated by comma and space,
  then \<open>(from\<close>, the names of all steps separated in the same way, and a closing bracket.
  The unmatched names are what is left of the requested names, in their order, after
  removing for each step in turn the first occurrence of its name: as a multiset, the
  requested names less the step names. Otherwise a forest is returned.
\<close>

theorem BuildPartialGraph_NotFound:
  assumes "names \<noteq> []"
  shows "(\<exists>e. BuildPartialGraph steps names = Some (Inl e))
           = (\<not> mset names \<subseteq># mset (map Name steps))
    \<and> (\<not> mset names \<subseteq># mset (map Name steps) \<longrightarrow>
         BuildPartialGraph steps names =
           Some (Inl (notFound (unmatched steps names) (map Name steps))))
    \<and> (\<not> mset names \<subseteq># mset (map Name steps) \<longrightarrow>
         BuildPartialGraph steps names =
           Some (Inl (Errorf
             (''the following names were not found in the config or were duplicates: ''
              @ (case unmatched steps names of [] \<Rightarrow> []
                 | u # us \<Rightarrow> u @ concat (map (\<lambda>n. '', '' @ n) us))
              @ '' (from ''
              @ (case map Name steps of [] \<Rightarrow> []
                 | s # ss \<Rightarrow> s @ concat (map (\<lambda>n. '', '' @ n) ss))
              @ '')''))))
    \<and> unmatched steps names = fold remove1 (map Name steps) names
    \<and> mset (unmatched steps names) = mset names - mset (map Name steps)
    \<and> (mset names \<subseteq># mset (map Name steps) \<longrightarrow>
         (\<exists>forest. BuildPartialGraph steps names = Some (Inr forest)))"
proof -
  have msg: "notFound (unmatched steps names) (map Name steps) =
      Errorf
        (''the following names were not found in the config or were duplicates: ''
         @ (case unmatched steps names of [] \<Rightarrow> []
            | u # us \<Rightarrow> u @ concat (map (\<lambda>n. '', '' @ n) us))
         @ '' (from ''
         @ (case map Name steps of [] \<Rightarrow> []
            | s # ss \<Rightarrow> s @ concat (map (\<lambda>n. '', '' @ n) ss))
         @ '')'')"
    unfolding notFound_def Join_eq ..
  have run: "BuildPartialGraph steps names =
     (if unmatched steps names \<noteq> []
      then Some (Inl (notFound (unmatched steps names) (map Name steps)))
      else Some (Inr (BuildGraph (selectedSteps steps names))))"
    by (rule BuildPartialGraph_eq [OF assms])
  have emp: "(unmatched steps names = []) = (mset names \<subseteq># mset (map Name steps))"
    by (rule unmatched_empty_iff)
  have ms: "mset (unmatched steps names) = mset names - mset (map Name steps)"
    by (simp add: unmatched_def mset_fold_remove1)
  have c1: "(\<exists>e. BuildPartialGraph steps names = Some (Inl e))
           = (\<not> mset names \<subseteq># mset (map Name steps))"
    unfolding run emp [symmetric] by simp
  have c2: "\<not> mset names \<subseteq># mset (map Name steps) \<longrightarrow>
         BuildPartialGraph steps names =
           Some (Inl (notFound (unmatched steps names) (map Name steps)))"
    unfolding run emp [symmetric] by simp
  have c4: "mset names \<subseteq># mset (map Name steps) \<longrightarrow>
         (\<exists>forest. BuildPartialGraph steps names = Some (Inr forest))"
    unfolding run emp [symmetric] by simp
  from c2 have c3: "\<not> mset names \<subseteq># mset (map Name steps) \<longrightarrow>
         BuildPartialGraph steps names =
           Some (Inl (Errorf
             (''the following names were not found in the config or were duplicates: ''
              @ (case unmatched steps names of [] \<Rightarrow> []
                 | u # us \<Rightarrow> u @ concat (map (\<lambda>n. '', '' @ n) us))
              @ '' (from ''
              @ (case map Name steps of [] \<Rightarrow> []
                 | s # ss \<Rightarrow> s @ concat (map (\<lambda>n. '', '' @ n) ss))
              @ '')'')))"
    unfolding msg .
  have c5: "unmatched steps names = fold remove1 (map Name steps) names"
    by (rule unmatched_def)
  show ?thesis
    by (intro conjI c1 c2 c3 c5 ms c4)
qed

text \<open>
  Claim C3 at the steps \<open>A, B\<close>: the names \<open>Z, A, A\<close> leave \<open>Z\<close> and one \<open>A\<close> unmatched,
  and the message lists them and the two step names; the name \<open>B\<close> is found.
\<close>

theorem BuildPartialGraph_NotFound_witness:
  "[''Z'', ''A'', ''A''] \<noteq> []
   \<and> \<not> mset [''Z'', ''A'', ''A''] \<subseteq># mset (map Name [stepA, stepB])
   \<and> unmatched [stepA, stepB] [''Z'', ''A'', ''A''] = [''Z'', ''A'']
   \<and> BuildPartialGraph [stepA, stepB] [''Z'', ''A'', ''A''] =
       Some (Inl (Errorf (''the following names were not found in the config ''
                          @ ''or were duplicates: Z, A (from A, B)'')))
   \<and> [''B''] \<noteq> [] \<and> mset [''B''] \<subseteq># mset (map Name [stepA, stepB])
   \<and> (\<exists>forest. BuildPartialGraph [stepA, stepB] [''B''] = Some (Inr forest))"
proof -
  have h1: "[''Z'', ''A'', ''A''] \<noteq> []" by simp
  have h2: "\<not> mset [''Z'', ''A'', ''A''] \<subseteq># mset (map Name [stepA, stepB])"
    by (simp add: stepA_def stepB_def)
  have h3: "[''B''] \<noteq> []" by simp
  have h4: "mset [''B''] \<subseteq># mset (map Name [stepA, stepB])"
    by (simp add: stepA_def stepB_def)
  have u: "unmatched [stepA, stepB] [''Z'', ''A'', ''A''] = [''Z'', ''A'']"
    by (simp add: unmatched_def stepA_def stepB_def)
  have n: "map Name [stepA, stepB] = [''A'', ''B'']"
    by (simp add: stepA_def stepB_def)
  from BuildPartialGraph_NotFound [OF h1, of "[stepA, stepB]"] h2
  have "BuildPartialGraph [stepA, stepB] [''Z'', ''A'', ''A''] =
      Some (Inl (Errorf
             (''the following names were not found in the config or were duplicates: ''
              @ (case unmatched [stepA, stepB] [''Z'', ''A'', ''A''] of [] \<Rightarrow> []
                 | u # us \<Rightarrow> u @ concat (map (\<lambda>n. '', '' @ n) us))
              @ '' (from ''
              @ (case map Name [stepA, stepB] of [] \<Rightarrow> []
                 | s # ss \<Rightarrow> s @ concat (map (\<lambda>n. '', '' @ n) ss))
              @ '')'')))"
    by blast
  then have e: "BuildPartialGraph [stepA, stepB] [''Z'', ''A'', ''A''] =
       Some (Inl (Errorf (''the following names were not found in the config ''
                          @ ''or were duplicates: Z, A (from A, B)'')))"
    unfolding u n by simp
  from BuildPartialGraph_NotFound [OF h3, of "[stepA, stepB]"] h4
  have "\<exists>forest. BuildPartialGraph [stepA, stepB] [''B''] = Some (Inr forest)"
    by blast
  with h1 h2 h3 h4 u e show ?thesis by blast
qed

text \<open>
  Claim C4 as stated fails: the step set of the returned forest is claimed to consist
  exactly of the requested steps and the steps they depend on. For the steps \<open>cycA, cycB\<close>
  and the name \<open>A\<close>, the name matches and \<open>cycA\<close> is requested, but the returned forest has
  no root and so does not hold \<open>cycA\<close>.
\<close>

theorem partial_forest_counterexample:
  "[''A''] \<noteq> [] \<and> mset [''A''] \<subseteq># mset (map Name [cycA, cycB])
   \<and> requested [cycA, cycB] [''A''] 0
   \<and> BuildPartialGraph [cycA, cycB] [''A''] =
       Some (Inr ([], [\<lparr>Step = cycA, Children = [1]\<rparr>, \<lparr>Step = cycB, Children = [0]\<rparr>]))
   \<and> cycA \<notin> forestSteps ([], [\<lparr>Step = cycA, Children = [1]\<rparr>, \<lparr>Step = cycB, Children = [0]\<rparr>])"
proof (intro conjI)
  show "[''A''] \<noteq> []" by simp
  show "mset [''A''] \<subseteq># mset (map Name [cycA, cycB])"
    by (simp add: cycA_def cycB_def)
  show "requested [cycA, cycB] [''A''] 0"
    by (simp add: requested_def cycA_def)
  show "BuildPartialGraph [cycA, cycB] [''A''] =
       Some (Inr ([], [\<lparr>Step = cycA, Children = [1]\<rparr>, \<lparr>Step = cycB, Children = [0]\<rparr>]))"
    by (simp add: run_simps cycA_def cycB_def)
  show "cycA \<notin> forestSteps ([], [\<lparr>Step = cycA, Children = [1]\<rparr>, \<lparr>Step = cycB, Children = [0]\<rparr>])"
    by (simp add: forestSteps_def reach_no_roots)
qed

text \<open>
  Claim C4, amended: for non-empty names that all match, BuildPartialGraph returns
  BuildGraph of exactly the selection (the requested steps and every step that creates a
  link satisfying a requirement of a selected step), in step order. The step set of the
  returned forest is a subset of the selection and of the step set of the forest of
  \<open>BuildGraph(steps)\<close>; position by position, a node in the returned forest stands for a
  selected step whose node is in the forest of \<open>BuildGraph(steps)\<close>. When the selected
  steps have no dependency cycle, the step set of the returned forest is exactly the
  selection.
\<close>

theorem BuildPartialGraph_selection:
  assumes "names \<noteq> []" and "mset names \<subseteq># mset (map Name steps)"
  shows "BuildPartialGraph steps names = Some (Inr (BuildGraph (selectedSteps steps names)))
    \<and> forestSteps (BuildGraph (selectedSteps steps names)) \<subseteq> set (selectedSteps steps names)
    \<and> forestSteps (BuildGraph (selectedSteps steps names)) \<subseteq> forestSteps (BuildGraph steps)
    \<and> (\<forall>a \<in> reach (snd (BuildGraph (selectedSteps steps names)))
                  (fst (BuildGraph (selectedSteps steps names))).
          selectedIndex steps names a \<in> selected steps names
          \<and> selectedIndex steps names a
               \<in> reach (snd (BuildGraph steps)) (fst (BuildGraph steps)))
    \<and> (acyclic (depRel (selectedSteps steps names)) \<longrightarrow>
          forestSteps (BuildGraph (selectedSteps steps names)) = set (selectedSteps steps names))"
proof -
  have run: "BuildPartialGraph steps names =
      Some (Inr (BuildGraph (selectedSteps steps names)))"
    using BuildPartialGraph_eq [OF assms(1), of steps] assms(2)
    by (simp add: unmatched_empty_iff)
  have pos: "selectedIndex steps names a \<in> selected steps names
      \<and> selectedIndex steps names a \<in> reach (snd (BuildGraph steps)) (fst (BuildGraph steps))"
    if a: "a \<in> reach (snd (BuildGraph (selectedSteps steps names)))
                  (fst (BuildGraph (selectedSteps steps names)))" for a
  proof -
    let ?idx = "filter (\<lambda>i. i \<in> selected steps names) [0..<length steps]"
    have T: "selectedSteps steps names = map (\<lambda>i. steps ! i) ?idx"
      by (simp add: selectedSteps_def)
    from sub_forest [OF selected_closed refl T a]
    have b: "a < length ?idx"
      and r: "?idx ! a \<in> reach (snd (BuildGraph steps)) (fst (BuildGraph steps))"
      by auto
    from nth_mem [OF b] have "?idx ! a \<in> selected steps names" by simp
    with r show ?thesis by (simp add: selectedIndex_def)
  qed
  from run forestSteps_selected [of steps names] pos
    acyclic_forestSteps [of "selectedSteps steps names"]
  show ?thesis by blast
qed

text \<open>
  Claim C4, amended, at the steps \<open>A, B\<close> and the name \<open>B\<close>: \<open>A\<close> is pulled in.
\<close>

theorem BuildPartialGraph_selection_witness:
  "[''B''] \<noteq> [] \<and> mset [''B''] \<subseteq># mset (map Name [stepA, stepB])
   \<and> acyclic (depRel (selectedSteps [stepA, stepB] [''B'']))
   \<and> selectedSteps [stepA, stepB] [''B''] = [stepA, stepB]
   \<and> BuildPartialGraph [stepA, stepB] [''B''] =
       Some (Inr (BuildGraph (selectedSteps [stepA, stepB] [''B''])))
   \<and> BuildPartialGraph [stepA, stepB] [''B''] =
       Some (Inr ([0], [\<lparr>Step = stepA, Children = [1]\<rparr>, \<lparr>Step = stepB, Children = []\<rparr>]))
   \<and> forestSteps (BuildGraph (selectedSteps [stepA, stepB] [''B''])) = {stepA, stepB}
   \<and> forestSteps (BuildGraph (selectedSteps [stepA, stepB] [''B'']))
        \<subseteq> forestSteps (BuildGraph [stepA, stepB])"
proof -
  have h1: "[''B''] \<noteq> []" by simp
  have h2: "mset [''B''] \<subseteq># mset (map Name [stepA, stepB])"
    by (simp add: stepA_def stepB_def)
  have s1: "1 \<in> selected [stepA, stepB] [''B'']"
    by (rule selected.requested) (simp_all add: requested_def stepA_def stepB_def)
  have s0: "0 \<in> selected [stepA, stepB] [''B'']"
    by (rule selected.provider [OF s1]) (simp_all add: dependsOn_def stepA_def stepB_def)
  have sel: "selectedSteps [stepA, stepB] [''B''] = [stepA, stepB]"
    using s0 s1 by (simp add: selectedSteps_def)
  have "depRel [stepA, stepB] = {(0, 1)}"
    by (auto simp: depRel_def dependsOn_def stepA_def stepB_def less_Suc_eq)
  moreover have "acyclic ({} :: (nat \<times> nat) set)"
    by (simp add: acyclic_def)
  ultimately have h3: "acyclic (depRel (selectedSteps [stepA, stepB] [''B'']))"
    by (simp add: sel acyclic_insert)
  have e: "BuildPartialGraph [stepA, stepB] [''B''] =
       Some (Inr ([0], [\<lparr>Step = stepA, Children = [1]\<rparr>, \<lparr>Step = stepB, Children = []\<rparr>]))"
    by (simp add: run_simps stepA_def stepB_def)
  from BuildPartialGraph_selection [OF h1 h2] h3
  have "BuildPartialGraph [stepA, stepB] [''B''] =
       Some (Inr (BuildGraph (selectedSteps [stepA, stepB] [''B''])))"
    and "forestSteps (BuildGraph (selectedSteps [stepA, stepB] [''B'']))
        \<subseteq> forestSteps (BuildGraph [stepA, stepB])"
    and "forestSteps (BuildGraph (selectedSteps [stepA, stepB] [''B''])) =
        set (selectedSteps [stepA, stepB] [''B''])"
    by blast+
  with h1 h2 h3 sel e show ?thesis by simp
qed

end
